theory Spec2Isabelle
  imports Complex_Main "HOL-Library.Product_Lexorder"
begin

section \<open>Board model\<close>

text \<open>
  The engines in \<^verbatim>\<open>minimax.py\<close> and \<^verbatim>\<open>mcts.py\<close> import a class \<^verbatim>\<open>Board\<close> whose source
  file is not part of the sources at hand.  The board is therefore modelled from the
  specification (section 3 and 4.1) and from the way the engines and the GUI use it:
  \<^verbatim>\<open>board.size\<close>, \<^verbatim>\<open>board.board[i][j]\<close> with the values \<^verbatim>\<open>0\<close> (empty), \<^verbatim>\<open>1\<close> (Black) and
  \<^verbatim>\<open>-1\<close> (White), \<^verbatim>\<open>board.current_player\<close> (\<^verbatim>\<open>1\<close> or \<^verbatim>\<open>-1\<close>), \<^verbatim>\<open>copy\<close>, \<^verbatim>\<open>make_move\<close>,
  \<^verbatim>\<open>get_valid_moves\<close>, \<^verbatim>\<open>check_win\<close> and \<^verbatim>\<open>is_game_over\<close>.

  A player value \<^verbatim>\<open>1\<close>/\<^verbatim>\<open>-1\<close> is a \<open>player\<close>, the unary minus of the source is
  \<open>opponent\<close>, and a cell value is a \<open>player option\<close> with \<open>None\<close> for \<^verbatim>\<open>0\<close>.
  The two-dimensional array is a function of the two indices together with the side
  length; the source reads it only at indices it has checked to be in range.
\<close>

datatype player = Black | White

fun opponent :: "player \<Rightarrow> player" where
  "opponent Black = White"
| "opponent White = Black"

type_synonym cell = "player option"

type_synonym move = "int \<times> int"

record board =
  bsize :: nat
  grid :: "int \<Rightarrow> int \<Rightarrow> cell"
  current_player :: player

text \<open>The bounds test \<^verbatim>\<open>0 <= ni < board.size and 0 <= nj < board.size\<close> of the source.\<close>

definition in_range :: "board \<Rightarrow> int \<Rightarrow> int \<Rightarrow> bool" where
  "in_range b i j \<longleftrightarrow> 0 \<le> i \<and> i < int (bsize b) \<and> 0 \<le> j \<and> j < int (bsize b)"

text \<open>Modelled from the spec: \<^verbatim>\<open>Board.copy\<close>, a fully independent deep copy. In a model that
  passes boards by value the copy is the same value.\<close>

definition copy :: "board \<Rightarrow> board" where
  "copy b = b"

text \<open>The assignment \<^verbatim>\<open>board.board[i][j] = v\<close>.\<close>

definition set_cell :: "board \<Rightarrow> move \<Rightarrow> cell \<Rightarrow> board" where
  "set_cell b m v = b\<lparr>grid := (grid b)(fst m := (grid b (fst m))(snd m := v))\<rparr>"

text \<open>Modelled from the spec: \<^verbatim>\<open>Board.make_move\<close> places the current player's stone and flips
  the current player; it does not validate the move.\<close>

definition make_move :: "board \<Rightarrow> move \<Rightarrow> board" where
  "make_move b m =
     (set_cell b m (Some (current_player b)))\<lparr>current_player := opponent (current_player b)\<rparr>"

text \<open>All cells in row-major order, as \<^verbatim>\<open>for i in range(size): for j in range(size)\<close>.\<close>

definition all_cells :: "board \<Rightarrow> move list" where
  "all_cells b = concat (map (\<lambda>i. map (\<lambda>j. (int i, int j)) [0..<bsize b]) [0..<bsize b])"

text \<open>Modelled from the spec: \<^verbatim>\<open>Board.get_valid_moves\<close>, all currently empty cells. The spec
  leaves the order open; the model lists them in row-major order.\<close>

definition get_valid_moves :: "board \<Rightarrow> move list" where
  "get_valid_moves b = filter (\<lambda>m. grid b (fst m) (snd m) = None) (all_cells b)"

text \<open>The four axis directions \<^verbatim>\<open>[(1,0), (0,1), (1,1), (1,-1)]\<close>.\<close>

definition directions :: "(int \<times> int) list" where
  "directions = [(1, 0), (0, 1), (1, 1), (1, -1)]"

text \<open>Modelled from the spec: \<^verbatim>\<open>Board.check_win\<close> returns the player of a five-in-line run
  found anywhere on the board along one of the four axes, or no winner. The model scans the
  cells in row-major order and reports the first run it finds.\<close>

definition five_from :: "board \<Rightarrow> player \<Rightarrow> move \<Rightarrow> int \<times> int \<Rightarrow> bool" where
  "five_from b p m d \<longleftrightarrow>
     list_all (\<lambda>k. in_range b (fst m + k * fst d) (snd m + k * snd d)
                   \<and> grid b (fst m + k * fst d) (snd m + k * snd d) = Some p) [0, 1, 2, 3, 4]"

definition wins_at :: "board \<Rightarrow> move \<Rightarrow> bool" where
  "wins_at b m \<longleftrightarrow>
     (case grid b (fst m) (snd m) of None \<Rightarrow> False
      | Some p \<Rightarrow> list_ex (five_from b p m) directions)"

definition check_win :: "board \<Rightarrow> player option" where
  "check_win b =
     (case find (wins_at b) (all_cells b) of None \<Rightarrow> None
      | Some m \<Rightarrow> grid b (fst m) (snd m))"

text \<open>Modelled from the spec: \<^verbatim>\<open>Board.is_game_over\<close> holds iff there is a winner or no empty
  cell is left.\<close>

definition is_game_over :: "board \<Rightarrow> bool" where
  "is_game_over b \<longleftrightarrow> check_win b \<noteq> None \<or> get_valid_moves b = []"

section \<open>Line scans shared by both engines\<close>

text \<open>
  The loop of \<^verbatim>\<open>_is_winning_move\<close> (the same text in \<^verbatim>\<open>GomokuAI\<close>, \<^verbatim>\<open>Node\<close> and \<^verbatim>\<open>MCTS\<close>):
  \<^verbatim>\<open>while 0 <= ni < size and 0 <= nj < size and board[ni][nj] == player:
        count += 1; ni += di; nj += dj\<close>
  The backward loop is the same loop with the step negated.  The source only ever steps
  along one of the four axis vectors; the model states that the step is not the zero
  vector, for which the Python loop would not end.
\<close>

function count_run :: "board \<Rightarrow> player \<Rightarrow> int \<Rightarrow> int \<Rightarrow> int \<Rightarrow> int \<Rightarrow> nat \<Rightarrow> nat" where
  "count_run b p ni nj di dj count =
     (if (di, dj) \<noteq> (0, 0) \<and> in_range b ni nj \<and> grid b ni nj = Some p
      then count_run b p (ni + di) (nj + dj) di dj (count + 1)
      else count)"
  by pat_completeness auto
termination
  by (relation "measure (\<lambda>(b, p, ni, nj, di, dj, count).
        if di > 0 then nat (int (bsize b) - ni)
        else if di < 0 then nat (ni + 1)
        else if dj > 0 then nat (int (bsize b) - nj)
        else nat (nj + 1))")
     (auto simp: in_range_def)

declare count_run.simps [simp del]

text \<open>\<^verbatim>\<open>_is_winning_move(board, move, player)\<close>: place the stone on a copy and count the run
  through the move along each axis; the early \<^verbatim>\<open>return True\<close> makes the loop over the
  directions an existential.\<close>

definition is_winning_move :: "board \<Rightarrow> move \<Rightarrow> player \<Rightarrow> bool" where
  "is_winning_move b m player =
     (let test_board = set_cell (copy b) m (Some player) in
      list_ex (\<lambda>(di, dj).
          let count = count_run test_board player (fst m + di) (snd m + dj) di dj 1;
              count = count_run test_board player (fst m - di) (snd m - dj) (- di) (- dj) count
          in count \<ge> 5) directions)"


text \<open>
  The loop of the pattern scan (\<^verbatim>\<open>GomokuAI._get_pattern\<close>, \<^verbatim>\<open>Node._evaluate_line\<close> and
  \<^verbatim>\<open>MCTS._quick_evaluate_move\<close> share it).  The state is
  \<open>(consecutive, space, blocked)\<close>; a result without a recursive call is a \<^verbatim>\<open>break\<close> or the
  end of the \<^verbatim>\<open>while\<close>.
\<close>

function walk :: "board \<Rightarrow> player \<Rightarrow> int \<Rightarrow> int \<Rightarrow> int \<Rightarrow> int \<Rightarrow> nat \<times> nat \<times> nat \<Rightarrow> nat \<times> nat \<times> nat" where
  "walk b player ni nj di dj (consecutive, space, blocked) =
     (if (di, dj) \<noteq> (0, 0) \<and> in_range b ni nj then
        (if grid b ni nj = None then
           (if space + 1 \<ge> 2 then (consecutive, space + 1, blocked)
            else walk b player (ni + di) (nj + dj) di dj (consecutive, space + 1, blocked))
         else if grid b ni nj = Some player then
           (if space = 0
            then walk b player (ni + di) (nj + dj) di dj (consecutive + 1, space, blocked)
            else (consecutive, space, blocked))
         else (consecutive, space, blocked + 1))
      else (consecutive, space, blocked))"
  by pat_completeness auto
termination
  by (relation "measure (\<lambda>(b, p, ni, nj, di, dj, st).
        if di > 0 then nat (int (bsize b) - ni)
        else if di < 0 then nat (ni + 1)
        else if dj > 0 then nat (int (bsize b) - nj)
        else nat (nj + 1))")
     (auto simp: in_range_def)

declare walk.simps [simp del]

section \<open>Pattern evaluator of the minimax engine\<close>

text \<open>\<^verbatim>\<open>GomokuAI._get_pattern\<close>: the backward walk, then the forward walk, which goes on
  counting \<open>consecutive\<close> and \<open>blocked\<close> but has its own space counter. The result is
  \<open>(consecutive, blocked, space_before + space_after)\<close>.\<close>

definition get_pattern :: "board \<Rightarrow> int \<Rightarrow> int \<Rightarrow> int \<Rightarrow> int \<Rightarrow> player \<Rightarrow> nat \<times> nat \<times> nat" where
  "get_pattern b i j di dj player =
     (case walk b player (i - di) (j - dj) (- di) (- dj) (1, 0, 0) of
        (consecutive, space_before, blocked) \<Rightarrow>
     (case walk b player (i + di) (j + dj) di dj (consecutive, 0, blocked) of
        (consecutive, space_after, blocked) \<Rightarrow>
          (consecutive, blocked, space_before + space_after)))"

text \<open>\<^verbatim>\<open>GomokuAI._get_pattern_score\<close> with the table \<^verbatim>\<open>pattern_scores\<close>.\<close>

definition get_pattern_score :: "nat \<times> nat \<times> nat \<Rightarrow> int" where
  "get_pattern_score pattern =
     (case pattern of (consecutive, blocked, space) \<Rightarrow>
        if consecutive \<ge> 5 then 100000
        else if consecutive = 4 \<and> blocked = 0 then 10000
        else if consecutive = 4 \<and> blocked = 1 then 5000
        else if consecutive = 3 \<and> blocked = 0 then 1000
        else if consecutive = 3 \<and> blocked = 1 then 500
        else if consecutive = 2 \<and> blocked = 0 then 100
        else if consecutive = 2 \<and> blocked = 1 then 50
        else if consecutive = 1 \<and> blocked = 0 then 10
        else 0)"

definition evaluate_direction_all :: "board \<Rightarrow> int \<Rightarrow> int \<Rightarrow> player \<Rightarrow> int" where
  "evaluate_direction_all b i j player =
     foldl (\<lambda>score (di, dj). score + get_pattern_score (get_pattern b i j di dj player))
       0 directions"

text \<open>
  \<^verbatim>\<open>GomokuAI._evaluate_move\<close>.  The Python score is a float (\<^verbatim>\<open>defense_score * 1.1\<close>); the
  model computes with exact rationals and \<open>11/10\<close>.
\<close>

definition ai_evaluate_move :: "board \<Rightarrow> move \<Rightarrow> rat" where
  "ai_evaluate_move b m =
     (let i = fst m; j = snd m;
          player = current_player b;
          opp = opponent player;
          test_board = set_cell (copy b) m (Some player);
          attack_score = evaluate_direction_all test_board i j player;
          test_board = set_cell test_board m (Some opp);
          defense_score = evaluate_direction_all test_board i j opp;
          center = int (bsize b) div 2;
          distance_to_center = \<bar>i - center\<bar> + \<bar>j - center\<bar>
      in of_int attack_score + of_int defense_score * (11 / 10) - of_int (distance_to_center * 10))"

definition has_neighbor :: "board \<Rightarrow> int \<Rightarrow> int \<Rightarrow> bool" where
  "has_neighbor b i j =
     list_ex (\<lambda>di. list_ex (\<lambda>dj. \<not> (di = 0 \<and> dj = 0) \<and> in_range b (i + di) (j + dj)
                                  \<and> grid b (i + di) (j + dj) \<noteq> None) [-1, 0, 1]) [-1, 0, 1]"

text \<open>\<^verbatim>\<open>GomokuAI._get_valid_moves\<close>: the centre on an empty board, otherwise the empty cells
  next to a stone, sorted by descending \<open>(score, move)\<close> and cut to fifteen.\<close>

definition ai_get_valid_moves :: "board \<Rightarrow> move list" where
  "ai_get_valid_moves b =
     (if length (get_valid_moves b) = bsize b * bsize b
      then [(int (bsize b) div 2, int (bsize b) div 2)]
      else let moves = map (\<lambda>m. (ai_evaluate_move b m, m))
                         (filter (\<lambda>m. grid b (fst m) (snd m) = None \<and> has_neighbor b (fst m) (snd m))
                            (all_cells b))
           in map snd (take 15 (rev (sort moves))))"

text \<open>\<^verbatim>\<open>GomokuAI._evaluate_board\<close>: \<open>player\<close> is the player to move on the board that is
  evaluated.\<close>

definition evaluate_board :: "board \<Rightarrow> rat" where
  "evaluate_board b =
     (let player = current_player b; opp = opponent player in
      foldl (\<lambda>score (i, j).
          if grid b i j \<noteq> None then
            foldl (\<lambda>score (di, dj).
                if grid b i j = Some player
                then score + of_int (get_pattern_score (get_pattern b i j di dj player))
                else score - of_int (get_pattern_score (get_pattern b i j di dj opp)) * (11 / 10))
              score directions
          else score)
        0 (all_cells b))"


section \<open>Minimax engine\<close>

text \<open>
  The search values are Python floats: finite scores and the two infinities
  \<^verbatim>\<open>float('-inf')\<close> and \<^verbatim>\<open>float('inf')\<close> that initialise the windows.
\<close>

datatype score = NegInf | Fin rat | PosInf

instantiation score :: linorder
begin

fun less_eq_score :: "score \<Rightarrow> score \<Rightarrow> bool" where
  "less_eq_score NegInf y = True"
| "less_eq_score (Fin a) NegInf = False"
| "less_eq_score (Fin a) (Fin b) = (a \<le> b)"
| "less_eq_score (Fin a) PosInf = True"
| "less_eq_score PosInf NegInf = False"
| "less_eq_score PosInf (Fin b) = False"
| "less_eq_score PosInf PosInf = True"

definition less_score :: "score \<Rightarrow> score \<Rightarrow> bool" where
  "less_score x y \<longleftrightarrow> x \<le> y \<and> \<not> y \<le> x"

instance
proof
  fix x y z :: score
  show "(x < y) = (x \<le> y \<and> \<not> y \<le> x)"
    by (simp add: less_score_def)
  show "x \<le> x"
    by (cases x) simp_all
  show "x \<le> y \<Longrightarrow> y \<le> z \<Longrightarrow> x \<le> z"
    by (cases x; cases y; cases z) simp_all
  show "x \<le> y \<Longrightarrow> y \<le> x \<Longrightarrow> x = y"
    by (cases x; cases y) simp_all
  show "x \<le> y \<or> y \<le> x"
    by (cases x; cases y) auto
qed

end

text \<open>
  The two \<^verbatim>\<open>for move in valid_moves\<close> loops of \<^verbatim>\<open>_minimax\<close>, with the value of the
  recursive call as a parameter \<open>child\<close>: it receives the move and the bound that the loop
  updates.  The \<^verbatim>\<open>break\<close> ends the loop with the value reached so far.
\<close>

fun max_loop :: "(move \<Rightarrow> score \<Rightarrow> score) \<Rightarrow> score \<Rightarrow> move list \<Rightarrow> score \<Rightarrow> score \<Rightarrow> score" where
  "max_loop child beta [] max_eval alpha = max_eval"
| "max_loop child beta (move # moves) max_eval alpha =
     (let eval = child move alpha;
          max_eval = max max_eval eval;
          alpha = max alpha eval
      in if beta \<le> alpha then max_eval else max_loop child beta moves max_eval alpha)"

fun min_loop :: "(move \<Rightarrow> score \<Rightarrow> score) \<Rightarrow> score \<Rightarrow> move list \<Rightarrow> score \<Rightarrow> score \<Rightarrow> score" where
  "min_loop child alpha [] min_eval beta = min_eval"
| "min_loop child alpha (move # moves) min_eval beta =
     (let eval = child move beta;
          min_eval = min min_eval eval;
          beta = min beta eval
      in if beta \<le> alpha then min_eval else min_loop child alpha moves min_eval beta)"

lemma max_loop_cong [fundef_cong]:
  "beta = beta' \<Longrightarrow> moves = moves' \<Longrightarrow> max_eval = max_eval' \<Longrightarrow> alpha = alpha' \<Longrightarrow>
   (\<And>m a. m \<in> set moves' \<Longrightarrow> child m a = child' m a) \<Longrightarrow>
   max_loop child beta moves max_eval alpha = max_loop child' beta' moves' max_eval' alpha'"
  by (induction moves' arbitrary: moves max_eval max_eval' alpha alpha') (auto simp: Let_def)

lemma min_loop_cong [fundef_cong]:
  "alpha = alpha' \<Longrightarrow> moves = moves' \<Longrightarrow> min_eval = min_eval' \<Longrightarrow> beta = beta' \<Longrightarrow>
   (\<And>m a. m \<in> set moves' \<Longrightarrow> child m a = child' m a) \<Longrightarrow>
   min_loop child alpha moves min_eval beta = min_loop child' alpha' moves' min_eval' beta'"
  by (induction moves' arbitrary: moves min_eval min_eval' beta beta') (auto simp: Let_def)

subsection \<open>Facts about the board that the recursion rests on\<close>

lemma all_cells_set_cell [simp]: "all_cells (set_cell b m v) = all_cells b"
  by (simp add: all_cells_def set_cell_def)

lemma all_cells_make_move [simp]: "all_cells (make_move b m) = all_cells b"
  by (simp add: all_cells_def make_move_def set_cell_def)

lemma grid_make_move:
  "grid (make_move b m) i j = (if (i, j) = m then Some (current_player b) else grid b i j)"
  by (cases m) (auto simp: make_move_def set_cell_def)

lemma get_valid_moves_make_move:
  "get_valid_moves (make_move b m) = filter (\<lambda>x. x \<noteq> m) (get_valid_moves b)"
  unfolding get_valid_moves_def all_cells_make_move filter_filter
  by (rule filter_cong) (auto simp: grid_make_move)

lemma make_move_fewer_empty:
  assumes "m \<in> set (get_valid_moves b)"
  shows "length (get_valid_moves (make_move b m)) < length (get_valid_moves b)"
  unfolding get_valid_moves_make_move using assms by (rule length_filter_less) simp

lemma all_cells_int: "x < bsize b \<Longrightarrow> y < bsize b \<Longrightarrow> (int x, int y) \<in> set (all_cells b)"
  unfolding all_cells_def set_concat set_map
  by (rule UN_I [where a = "map (\<lambda>j. (int x, int j)) [0..<bsize b]"]) auto

lemma in_all_cells: "(i, j) \<in> set (all_cells b) \<longleftrightarrow> in_range b i j"
proof
  assume "(i, j) \<in> set (all_cells b)"
  then obtain x y where "x < bsize b" "y < bsize b" "i = int x" "j = int y"
    by (auto simp: all_cells_def)
  then show "in_range b i j"
    by (simp add: in_range_def)
next
  assume "in_range b i j"
  then have "nat i < bsize b" "nat j < bsize b" "int (nat i) = i" "int (nat j) = j"
    by (auto simp: in_range_def)
  then show "(i, j) \<in> set (all_cells b)"
    using all_cells_int [of "nat i" b "nat j"] by simp
qed


lemma length_all_cells [simp]: "length (all_cells b) = bsize b * bsize b"
  by (simp add: all_cells_def length_concat comp_def sum_list_triv)

lemma ai_get_valid_moves_valid:
  assumes "m \<in> set (ai_get_valid_moves b)" and "get_valid_moves b \<noteq> []"
  shows "m \<in> set (get_valid_moves b)"
proof (cases "length (get_valid_moves b) = bsize b * bsize b")
  case True
  then have "length (filter (\<lambda>m. grid b (fst m) (snd m) = None) (all_cells b)) = length (all_cells b)"
    by (simp add: get_valid_moves_def)
  then have "\<forall>x\<in>set (all_cells b). grid b (fst x) (snd x) = None"
    using length_filter_less [of _ "all_cells b" "\<lambda>m. grid b (fst m) (snd m) = None"] by force
  then have all: "get_valid_moves b = all_cells b"
    by (simp add: get_valid_moves_def)
  from assms(2) all have "all_cells b \<noteq> []" by simp
  then have "0 < bsize b"
    by (cases "bsize b") (auto simp: all_cells_def)
  then have "in_range b (int (bsize b) div 2) (int (bsize b) div 2)"
    by (auto simp: in_range_def)
  with True assms(1) all show ?thesis
    by (simp add: ai_get_valid_moves_def in_all_cells)
next
  case False
  with assms(1) obtain s where "(s, m) \<in> set (take 15 (rev (sort (map (\<lambda>m. (ai_evaluate_move b m, m))
       (filter (\<lambda>m. grid b (fst m) (snd m) = None \<and> has_neighbor b (fst m) (snd m)) (all_cells b))))))"
    by (auto simp: ai_get_valid_moves_def Let_def)
  then have "(s, m) \<in> set (map (\<lambda>m. (ai_evaluate_move b m, m))
       (filter (\<lambda>m. grid b (fst m) (snd m) = None \<and> has_neighbor b (fst m) (snd m)) (all_cells b)))"
    using in_set_takeD by fastforce
  then show ?thesis
    by (auto simp: get_valid_moves_def)
qed

lemma candidate_move_fewer_empty:
  assumes "\<not> is_game_over b" and "m \<in> set (ai_get_valid_moves b)"
  shows "length (get_valid_moves (make_move (copy b) m)) < length (get_valid_moves b)"
proof -
  from assms have "m \<in> set (get_valid_moves b)"
    by (auto simp: is_game_over_def intro: ai_get_valid_moves_valid)
  then show ?thesis
    by (simp add: copy_def make_move_fewer_empty)
qed

text \<open>
  \<^verbatim>\<open>GomokuAI._minimax\<close>.  \<open>depth\<close> is a Python integer: \<^verbatim>\<open>get_move\<close> starts the recursion at
  \<^verbatim>\<open>max_depth - 1\<close>, which is negative for \<^verbatim>\<open>max_depth = 0\<close>; the recursion then ends only
  at boards where the game is over.  Every recursive call is on a board with one empty cell
  fewer, which is what the termination proof uses.
\<close>

function minimax :: "board \<Rightarrow> int \<Rightarrow> bool \<Rightarrow> score \<Rightarrow> score \<Rightarrow> score" where
  "minimax b depth is_maximizing alpha beta =
     (if depth = 0 \<or> is_game_over b then Fin (evaluate_board b)
      else if is_maximizing then
        max_loop (\<lambda>move alpha. minimax (make_move (copy b) move) (depth - 1) False alpha beta)
          beta (ai_get_valid_moves b) NegInf alpha
      else
        min_loop (\<lambda>move beta. minimax (make_move (copy b) move) (depth - 1) True alpha beta)
          alpha (ai_get_valid_moves b) PosInf beta)"
  by pat_completeness auto
termination
  by (relation "measure (\<lambda>(b, depth, is_maximizing, alpha, beta). length (get_valid_moves b))")
     (auto intro: candidate_move_fewer_empty)

declare minimax.simps [simp del]

text \<open>The root loop of \<^verbatim>\<open>GomokuAI.get_move\<close>; \<open>beta\<close> stays at \<^verbatim>\<open>float('inf')\<close> there.\<close>

fun root_loop :: "(move \<Rightarrow> score \<Rightarrow> score) \<Rightarrow> move list \<Rightarrow> score \<Rightarrow> score \<Rightarrow> move option \<Rightarrow> move option" where
  "root_loop child [] alpha best_score best_move = best_move"
| "root_loop child (move # moves) alpha best_score best_move =
     (let score = child move alpha;
          best_move = (if score > best_score then Some move else best_move);
          best_score = (if score > best_score then score else best_score);
          alpha = max alpha best_score
      in root_loop child moves alpha best_score best_move)"

text \<open>\<^verbatim>\<open>GomokuAI.get_move\<close>; the result \<open>None\<close> is Python's \<^verbatim>\<open>None\<close>.\<close>

definition get_move :: "int \<Rightarrow> board \<Rightarrow> move option" where
  "get_move max_depth b =
     (let valid_moves = ai_get_valid_moves b in
      if valid_moves = [] then None
      else if length valid_moves = bsize b * bsize b
        then Some (int (bsize b) div 2, int (bsize b) div 2)
      else case find (\<lambda>move. is_winning_move b move (current_player b)) valid_moves of
        Some move \<Rightarrow> Some move
      | None \<Rightarrow>
          (case find (\<lambda>move. is_winning_move b move (opponent (current_player b))) valid_moves of
             Some move \<Rightarrow> Some move
           | None \<Rightarrow>
               root_loop (\<lambda>move alpha. minimax (make_move (copy b) move) (max_depth - 1) False alpha PosInf)
                 valid_moves NegInf NegInf None))"
section \<open>The minimax recursion without the cutoff\<close>

text \<open>
  The comparison partner of claim C9: the same loops, recursion and root loop as
  \<^verbatim>\<open>_minimax\<close> and \<^verbatim>\<open>get_move\<close> with the two lines
  \<^verbatim>\<open>if beta <= alpha: break\<close> removed.  Everything else, also the updates of \<open>alpha\<close> and
  \<open>beta\<close> and the candidate generator, is as in the source.
\<close>

fun max_loop_no_cutoff :: "(move \<Rightarrow> score \<Rightarrow> score) \<Rightarrow> score \<Rightarrow> move list \<Rightarrow> score \<Rightarrow> score \<Rightarrow> score" where
  "max_loop_no_cutoff child beta [] max_eval alpha = max_eval"
| "max_loop_no_cutoff child beta (move # moves) max_eval alpha =
     (let eval = child move alpha;
          max_eval = max max_eval eval;
          alpha = max alpha eval
      in max_loop_no_cutoff child beta moves max_eval alpha)"

fun min_loop_no_cutoff :: "(move \<Rightarrow> score \<Rightarrow> score) \<Rightarrow> score \<Rightarrow> move list \<Rightarrow> score \<Rightarrow> score \<Rightarrow> score" where
  "min_loop_no_cutoff child alpha [] min_eval beta = min_eval"
| "min_loop_no_cutoff child alpha (move # moves) min_eval beta =
     (let eval = child move beta;
          min_eval = min min_eval eval;
          beta = min beta eval
      in min_loop_no_cutoff child alpha moves min_eval beta)"

lemma max_loop_no_cutoff_cong [fundef_cong]:
  "beta = beta' \<Longrightarrow> moves = moves' \<Longrightarrow> max_eval = max_eval' \<Longrightarrow> alpha = alpha' \<Longrightarrow>
   (\<And>m a. m \<in> set moves' \<Longrightarrow> child m a = child' m a) \<Longrightarrow>
   max_loop_no_cutoff child beta moves max_eval alpha
     = max_loop_no_cutoff child' beta' moves' max_eval' alpha'"
  by (induction moves' arbitrary: moves max_eval max_eval' alpha alpha') (auto simp: Let_def)

lemma min_loop_no_cutoff_cong [fundef_cong]:
  "alpha = alpha' \<Longrightarrow> moves = moves' \<Longrightarrow> min_eval = min_eval' \<Longrightarrow> beta = beta' \<Longrightarrow>
   (\<And>m a. m \<in> set moves' \<Longrightarrow> child m a = child' m a) \<Longrightarrow>
   min_loop_no_cutoff child alpha moves min_eval beta
     = min_loop_no_cutoff child' alpha' moves' min_eval' beta'"
  by (induction moves' arbitrary: moves min_eval min_eval' beta beta') (auto simp: Let_def)

function minimax_no_cutoff :: "board \<Rightarrow> int \<Rightarrow> bool \<Rightarrow> score \<Rightarrow> score \<Rightarrow> score" where
  "minimax_no_cutoff b depth is_maximizing alpha beta =
     (if depth = 0 \<or> is_game_over b then Fin (evaluate_board b)
      else if is_maximizing then
        max_loop_no_cutoff
          (\<lambda>move alpha. minimax_no_cutoff (make_move (copy b) move) (depth - 1) False alpha beta)
          beta (ai_get_valid_moves b) NegInf alpha
      else
        min_loop_no_cutoff
          (\<lambda>move beta. minimax_no_cutoff (make_move (copy b) move) (depth - 1) True alpha beta)
          alpha (ai_get_valid_moves b) PosInf beta)"
  by pat_completeness auto
termination
  by (relation "measure (\<lambda>(b, depth, is_maximizing, alpha, beta). length (get_valid_moves b))")
     (auto intro: candidate_move_fewer_empty)

declare minimax_no_cutoff.simps [simp del]

definition get_move_no_cutoff :: "int \<Rightarrow> board \<Rightarrow> move option" where
  "get_move_no_cutoff max_depth b =
     (let valid_moves = ai_get_valid_moves b in
      if valid_moves = [] then None
      else if length valid_moves = bsize b * bsize b
        then Some (int (bsize b) div 2, int (bsize b) div 2)
      else case find (\<lambda>move. is_winning_move b move (current_player b)) valid_moves of
        Some move \<Rightarrow> Some move
      | None \<Rightarrow>
          (case find (\<lambda>move. is_winning_move b move (opponent (current_player b))) valid_moves of
             Some move \<Rightarrow> Some move
           | None \<Rightarrow>
               root_loop (\<lambda>move alpha. minimax_no_cutoff (make_move (copy b) move) (max_depth - 1) False alpha PosInf)
                 valid_moves NegInf NegInf None))"

section \<open>MCTS engine\<close>

subsection \<open>Move ordering of a node\<close>

text \<open>\<^verbatim>\<open>Node._evaluate_line\<close>: the two walks of the pattern scan, then the score table of the
  MCTS engine with the base score 100.\<close>

definition evaluate_line :: "board \<Rightarrow> int \<Rightarrow> int \<Rightarrow> int \<Rightarrow> int \<Rightarrow> player \<Rightarrow> int" where
  "evaluate_line b i j di dj player =
     (case walk b player (i - di) (j - dj) (- di) (- dj) (1, 0, 0) of
        (consecutive, space_before, blocked) \<Rightarrow>
     (case walk b player (i + di) (j + dj) di dj (consecutive, 0, blocked) of
        (consecutive, space_after, blocked) \<Rightarrow>
          if consecutive \<ge> 5 then 100000
          else if consecutive = 4 then
            (if blocked = 0 then 50000 else if blocked = 1 then 10000 else 100)
          else if consecutive = 3 then
            (if blocked = 0 then 8000 else if blocked = 1 then 3000 else 100)
          else if consecutive = 2 then
            (if blocked = 0 then 1000 else if blocked = 1 then 300 else 100)
          else 100))"

text \<open>\<^verbatim>\<open>Node._get_min_distance_to_pieces\<close>: the Manhattan distance to the nearest stone in the
  5 by 5 window around the move, \<^verbatim>\<open>float('inf')\<close> when the window holds no stone.\<close>

definition get_min_distance_to_pieces :: "board \<Rightarrow> move \<Rightarrow> score" where
  "get_min_distance_to_pieces b m =
     (let i = fst m; j = snd m in
      foldl (\<lambda>min_distance x.
          foldl (\<lambda>min_distance y.
              if grid b x y \<noteq> None
              then min min_distance (Fin (of_int (\<bar>x - i\<bar> + \<bar>y - j\<bar>)))
              else min_distance)
            min_distance [max 0 (j - 2) .. min (int (bsize b)) (j + 3) - 1])
        PosInf [max 0 (i - 2) .. min (int (bsize b)) (i + 3) - 1])"

text \<open>\<^verbatim>\<open>Node._evaluate_move\<close>.  The attack is read on the copy with the stone placed, the
  defence on the board itself.\<close>

definition node_evaluate_move :: "board \<Rightarrow> move \<Rightarrow> rat" where
  "node_evaluate_move b m =
     (let i = fst m; j = snd m;
          player = current_player b;
          opp = opponent player;
          test_board = set_cell (copy b) m (Some player);
          score = foldl (\<lambda>score (di, dj).
                     score + of_int (evaluate_line test_board i j di dj player)
                           + of_int (evaluate_line b i j di dj opp) * (11 / 10))
                   0 directions;
          center = int (bsize b) div 2;
          distance_to_center = \<bar>i - center\<bar> + \<bar>j - center\<bar>;
          score = score - of_int (distance_to_center * 10);
          min_distance = get_min_distance_to_pieces b m
      in if min_distance > Fin 2 then score * (1 / 10) else score)"

text \<open>\<^verbatim>\<open>Node._get_sorted_moves\<close>.  The loop returns at the first move that wins for the
  player to move; otherwise the moves that would win for the opponent, if any; otherwise
  the high-priority moves followed by the normal ones, each group sorted by descending
  \<open>(score, move)\<close>, cut to ten.\<close>

definition get_sorted_moves :: "board \<Rightarrow> move list" where
  "get_sorted_moves b =
     (let valid_moves = get_valid_moves b in
      if valid_moves = [] then []
      else if length valid_moves = bsize b * bsize b
        then [(int (bsize b) div 2, int (bsize b) div 2)]
      else case find (\<lambda>move. is_winning_move b move (current_player b)) valid_moves of
        Some move \<Rightarrow> [move]
      | None \<Rightarrow>
          (let critical_moves =
                 filter (\<lambda>move. is_winning_move b move (opponent (current_player b))) valid_moves;
               scored = map (\<lambda>move. (node_evaluate_move b move, move))
                          (filter (\<lambda>move. \<not> is_winning_move b move (opponent (current_player b)))
                             valid_moves);
               high_priority_moves = filter (\<lambda>(score, move). score \<ge> 5000) scored;
               normal_moves = filter (\<lambda>(score, move). \<not> score \<ge> 5000) scored
           in if critical_moves \<noteq> [] then critical_moves
              else take 10 (map snd (rev (sort high_priority_moves))
                            @ map snd (rev (sort normal_moves)))))"

subsection \<open>Tree nodes\<close>

text \<open>
  A \<^verbatim>\<open>Node\<close> object: board, move (\<^verbatim>\<open>None\<close> at the root), children, wins, visits and untried
  moves.  The \<^verbatim>\<open>parent\<close> reference is only followed by the backpropagation walk; in the
  model the walk back to the root is the return path of the recursion that descended from
  the root, so the field does not appear.
\<close>

datatype node = Node (node_board: board) (node_move: "move option") (children: "node list")
  (wins: rat) (visits: nat) (untried_moves: "move list")

text \<open>\<^verbatim>\<open>Node.__init__\<close>\<close>

definition new_node :: "board \<Rightarrow> move option \<Rightarrow> node" where
  "new_node b mv = Node b mv [] 0 0 (get_sorted_moves b)"

text \<open>\<^verbatim>\<open>Node.update\<close>\<close>

fun update :: "node \<Rightarrow> rat \<Rightarrow> node" where
  "update (Node b mv cs w v u) result = Node b mv cs (w + result) (v + 1) u"

datatype error = IndexError | ZeroDivisionError | ValueError

text \<open>
  \<^verbatim>\<open>Node.select_child\<close>.  The key of a child is
  \<^verbatim>\<open>x.wins/x.visits + c * math.sqrt(2 * math.log(self.visits)/x.visits)\<close>.  Python raises
  ZeroDivisionError when \<^verbatim>\<open>x.visits\<close> is 0 and ValueError when \<^verbatim>\<open>self.visits\<close> is 0; the keys
  are computed for the children in list order.  \<^verbatim>\<open>sorted\<close> is stable and \<^verbatim>\<open>s[-1]\<close> is its
  last element; the model sorts the positions of the children and returns the chosen
  position.
\<close>

definition ucb1 :: "node \<Rightarrow> node \<Rightarrow> real" where
  "ucb1 n x = of_rat (wins x) / real (visits x)
              + (1414 / 1000) * sqrt (2 * ln (real (visits n)) / real (visits x))"

definition select_child :: "node \<Rightarrow> error + nat" where
  "select_child n =
     (if children n = [] then Inl IndexError
      else if visits (hd (children n)) \<noteq> 0 \<and> visits n = 0 then Inl ValueError
      else if list_ex (\<lambda>x. visits x = 0) (children n) then Inl ZeroDivisionError
      else Inr (last (sort_key (\<lambda>i. ucb1 n (children n ! i)) [0..<length (children n)])))"

subsection \<open>Rollout\<close>

text \<open>\<^verbatim>\<open>MCTS._is_winning_move\<close>\<close>

definition mcts_is_winning_move :: "board \<Rightarrow> move \<Rightarrow> bool \<Rightarrow> bool" where
  "mcts_is_winning_move b m check_opponent =
     is_winning_move b m (if check_opponent then opponent (current_player b) else current_player b)"

text \<open>\<^verbatim>\<open>MCTS._quick_evaluate_move\<close>: per direction one walk forward and one backward that
  share all three counters.\<close>

definition quick_evaluate_move :: "board \<Rightarrow> move \<Rightarrow> int" where
  "quick_evaluate_move b m =
     (let i = fst m; j = snd m; player = current_player b in
      foldl (\<lambda>score (di, dj).
          case walk b player (i - di) (j - dj) (- di) (- dj)
                 (walk b player (i + di) (j + dj) di dj (1, 0, 0)) of
            (consecutive, space, blocked) \<Rightarrow>
              if consecutive \<ge> 5 then score + 100000
              else if consecutive = 4 then
                (if blocked = 0 then score + 50000 else if blocked = 1 then score + 10000 else score)
              else if consecutive = 3 then
                (if blocked = 0 then score + 5000 else if blocked = 1 then score + 1000 else score)
              else if consecutive = 2 then
                (if blocked = 0 then score + 500 else if blocked = 1 then score + 100 else score)
              else score)
        0 directions)"

text \<open>The move chosen in one step of the rollout, from the first six valid moves: the first
  that wins, else the last that blocks, else the best by \<open>(score, move)\<close>.\<close>

definition rollout_move :: "board \<Rightarrow> move list \<Rightarrow> move" where
  "rollout_move b moves =
     (let candidates = take (min 6 (length moves)) moves in
      case find (\<lambda>move. mcts_is_winning_move b move False) candidates of
        Some winning_move \<Rightarrow> winning_move
      | None \<Rightarrow>
          (case filter (\<lambda>move. mcts_is_winning_move b move True) candidates of
             [] \<Rightarrow> snd (hd (rev (sort (map (\<lambda>move. (quick_evaluate_move b move, move)) candidates))))
           | blocking \<Rightarrow> last blocking))"

lemma rollout_move_valid:
  assumes "moves \<noteq> []"
  shows "rollout_move b moves \<in> set moves"
proof -
  define candidates where "candidates = take (min 6 (length moves)) moves"
  have ne: "candidates \<noteq> []"
    using assms by (cases moves) (simp_all add: candidates_def)
  have sub: "set candidates \<subseteq> set moves"
    unfolding candidates_def by (rule set_take_subset)
  show ?thesis
  proof (cases "find (\<lambda>move. mcts_is_winning_move b move False) candidates")
    case (Some m)
    then have "m \<in> set candidates"
      by (auto simp: find_Some_iff)
    with Some sub show ?thesis
      by (auto simp: rollout_move_def candidates_def [symmetric])
  next
    case None
    show ?thesis
    proof (cases "filter (\<lambda>move. mcts_is_winning_move b move True) candidates")
      case Nil
      define scored where "scored = rev (sort (map (\<lambda>move. (quick_evaluate_move b move, move)) candidates))"
      have "length scored = length candidates"
        by (simp add: scored_def)
      with ne have "scored \<noteq> []"
        by auto
      then have "hd scored \<in> set scored"
        by simp
      then have "snd (hd scored) \<in> set candidates"
        by (auto simp: scored_def)
      with None Nil sub show ?thesis
        by (auto simp: rollout_move_def candidates_def [symmetric] scored_def [symmetric])
    next
      case (Cons x xs)
      then have "last (x # xs) \<in> set (filter (\<lambda>move. mcts_is_winning_move b move True) candidates)"
        by (metis last_in_set list.distinct(1))
      then have "last (x # xs) \<in> set candidates"
        by simp
      with None Cons sub show ?thesis
        by (auto simp: rollout_move_def candidates_def [symmetric])
    qed
  qed
qed

text \<open>The rollout loop \<^verbatim>\<open>while not board_state.is_game_over()\<close>.  Each step fills an empty
  cell, so the loop ends.\<close>

function simulate :: "board \<Rightarrow> board" where
  "simulate board_state =
     (if is_game_over board_state then board_state
      else let moves = get_valid_moves board_state in
        if moves = [] then board_state
        else simulate (make_move board_state (rollout_move board_state moves)))"
  by pat_completeness auto
termination
  by (relation "measure (\<lambda>b. length (get_valid_moves b))")
     (auto intro: make_move_fewer_empty rollout_move_valid)

declare simulate.simps [simp del]

text \<open>The value that the backpropagation adds to every node it visits, from the result of
  \<^verbatim>\<open>check_win\<close> after the rollout and the player recorded before it.\<close>

definition backprop_value :: "player option \<Rightarrow> player \<Rightarrow> rat" where
  "backprop_value result player =
     (if result = None then 1 / 2 else if result = Some player then 1 else 0)"

text \<open>Simulation from the board of a node: \<^verbatim>\<open>board_state = node.board.copy()\<close>,
  \<^verbatim>\<open>current_player = board_state.current_player\<close>, the rollout, \<^verbatim>\<open>check_win\<close>.\<close>

definition simulation_value :: "board \<Rightarrow> rat" where
  "simulation_value b =
     (let board_state = copy b;
          player = current_player board_state;
          result = check_win (simulate board_state)
      in backprop_value result player)"

subsection \<open>One iteration and the search loop\<close>

lemma select_child_in_range:
  assumes "select_child n = Inr i"
  shows "i < length (children n)"
proof -
  from assms have ne: "children n \<noteq> []"
    and i: "i = last (sort_key (\<lambda>i. ucb1 n (children n ! i)) [0..<length (children n)])"
    by (auto simp: select_child_def split: if_splits)
  from ne have "sort_key (\<lambda>i. ucb1 n (children n ! i)) [0..<length (children n)] \<noteq> []"
    by (metis length_greater_0_conv length_sort length_upt diff_zero)
  then have "i \<in> set (sort_key (\<lambda>i. ucb1 n (children n ! i)) [0..<length (children n)])"
    unfolding i by (rule last_in_set)
  then show ?thesis by simp
qed

text \<open>
  One pass of the body of the \<^verbatim>\<open>while time.time() < end_time\<close> loop, as a recursion along
  the selected path.  Selection descends while the node has no untried move and has
  children; expansion adds a child for \<^verbatim>\<open>untried_moves[0]\<close>; the simulation starts from the
  board of the node reached; on the way back every node of the path is updated with the
  same value.  The result is the updated node and that value.
\<close>

function iterate :: "node \<Rightarrow> error + node \<times> rat" where
  "iterate (Node b mv cs w v u) =
     (if u = [] \<and> cs \<noteq> [] then
        (case select_child (Node b mv cs w v u) of
           Inl e \<Rightarrow> Inl e
         | Inr i \<Rightarrow>
             (case iterate (cs ! i) of
                Inl e \<Rightarrow> Inl e
              | Inr (c, result) \<Rightarrow> Inr (update (Node b mv (cs[i := c]) w v u) result, result)))
      else if u \<noteq> [] then
        (let move = hd u;
             child = new_node (make_move (copy b) move) (Some move);
             result = simulation_value (node_board child)
         in Inr (update (Node b mv (cs @ [update child result]) w v (remove1 move u)) result, result))
      else
        (let result = simulation_value b
         in Inr (update (Node b mv cs w v u) result, result)))"
  by pat_completeness auto
termination
proof (relation "measure size")
  show "wf (measure size)" by simp
next
  fix b mv cs w v u i
  assume "select_child (Node b mv cs w v u) = Inr i"
  then have "i < length cs"
    using select_child_in_range by fastforce
  then have "cs ! i \<in> set cs" by simp
  then have "size (cs ! i) < Suc (size_list size cs)"
    by (simp add: size_list_estimation less_Suc_eq_le size_list_estimation')
  then show "(cs ! i, Node b mv cs w v u) \<in> measure size"
    by simp
qed

declare iterate.simps [simp del]

text \<open>
  The search loop.  The clock is outside the program: the number \<open>ticks\<close> of times the
  test \<^verbatim>\<open>time.time() < end_time\<close> succeeds before it first fails is a parameter.  An
  exception raised in an iteration ends the loop.
\<close>

fun search :: "nat \<Rightarrow> node \<Rightarrow> error + node" where
  "search 0 root_node = Inr root_node"
| "search (Suc ticks) root_node =
     (case iterate root_node of
        Inl e \<Rightarrow> Inl e
      | Inr (root_node, result) \<Rightarrow> search ticks root_node)"

text \<open>The configuration \<^verbatim>\<open>MCTS.__init__\<close> stores.\<close>

record mcts =
  time_limit :: rat
  max_moves :: int

text \<open>
  \<^verbatim>\<open>MCTS.get_move\<close>.  The result is the \<^verbatim>\<open>move\<close> attribute of the chosen child;
  \<^verbatim>\<open>sorted(...)[-1]\<close> raises IndexError when the root has no child.
\<close>

definition mcts_get_move :: "mcts \<Rightarrow> nat \<Rightarrow> board \<Rightarrow> error + move option" where
  "mcts_get_move self ticks b =
     (let root_node = new_node b None in
      case find (\<lambda>move. is_winning_move b move (current_player b)
                        \<or> is_winning_move b move (opponent (current_player b)))
             (untried_moves root_node) of
        Some move \<Rightarrow> Inr (Some move)
      | None \<Rightarrow>
          (case search ticks root_node of
             Inl e \<Rightarrow> Inl e
           | Inr root_node \<Rightarrow>
               if children root_node = [] then Inl IndexError
               else Inr (node_move (last (sort_key visits (children root_node))))))"

section \<open>Properties of the search tree\<close>

text \<open>
  The condition under which \<^verbatim>\<open>select_child\<close> can be called on every node of a tree that
  has children: the node has been visited, and so has every child.
\<close>

fun select_safe :: "node \<Rightarrow> bool" where
  "select_safe (Node b mv cs w v u) \<longleftrightarrow>
     (cs \<noteq> [] \<longrightarrow> 1 \<le> v) \<and> (\<forall>c \<in> set cs. 1 \<le> visits c \<and> select_safe c)"


section \<open>Concrete boards\<close>

text \<open>A board of side \<open>n\<close> with the listed stones and the given player to move.\<close>

definition board_of :: "nat \<Rightarrow> (move \<times> player) list \<Rightarrow> player \<Rightarrow> board" where
  "board_of n stones p = \<lparr>bsize = n, grid = (\<lambda>i j. map_of stones (i, j)), current_player = p\<rparr>"


definition c5_board :: board where
  "c5_board = board_of 15 [((0, 0), Black), ((1, 0), Black), ((3, 0), White), ((7, 7), White)] Black"


text \<open>
  A late position on the 15 by 15 board with 110 stones of each colour, five empty cells and
  Black to move.  Black holds \<open>(0, 10)\<close>, \<open>(0, 11)\<close>, \<open>(0, 12)\<close> with \<open>(0, 8)\<close>, \<open>(0, 9)\<close>,
  \<open>(0, 13)\<close>, \<open>(0, 14)\<close> empty; nobody has five in line and nobody can win with one stone.
  \<open>late_tree1\<close> and \<open>late_tree2\<close> are the search trees after one and two iterations from this
  board; \<open>late_cfg\<close> is a configuration with \<^verbatim>\<open>max_moves = 1\<close>.
\<close>

definition late_board :: board where
  "late_board = \<lparr>bsize = 15,
     grid = (\<lambda>i j. if (i, j) = (0, 8) \<or> (i, j) = (0, 9) \<or> (i, j) = (0, 13) \<or> (i, j) = (0, 14)
                      \<or> (i, j) = (14, 0) then None
                   else if (i, j) = (0, 10) \<or> (i, j) = (0, 11) then Some Black
                   else if (i, j) = (7, 7) then Some White
                   else if (j + 2 * i) mod 4 < 2 then Some Black else Some White),
     current_player = Black\<rparr>"

definition late_child :: "move \<Rightarrow> node" where
  "late_child m = Node (make_move (copy late_board) m) (Some m) [] 0 1
                    (get_sorted_moves (make_move (copy late_board) m))"

definition late_tree1 :: node where
  "late_tree1 = Node late_board None [late_child (0, 13)] 0 1 [(0, 9), (0, 8), (14, 0), (0, 14)]"

definition late_tree2 :: node where
  "late_tree2 = Node late_board None [late_child (0, 13), late_child (0, 9)] 0 2 [(0, 8), (14, 0), (0, 14)]"

definition late_cfg :: mcts where
  "late_cfg = \<lparr>time_limit = 5, max_moves = 1\<rparr>"

text \<open>A drawn final position: the 15 by 15 board is full (113 Black and 112 White stones)
  and nobody has five in line.\<close>

definition full_board :: board where
  "full_board = \<lparr>bsize = 15,
     grid = (\<lambda>i j. if (j + 2 * i) mod 4 < 2 then Some Black else Some White),
     current_player = White\<rparr>"



section \<open>Basic facts about players and moves\<close>

lemma other_player: "q \<noteq> p \<Longrightarrow> q = opponent p"
  by (cases q; cases p) simp_all

lemma not_own_stone: "c \<noteq> None \<Longrightarrow> c \<noteq> Some p \<Longrightarrow> c = Some (opponent p)"
  by (cases c) (auto dest: other_player)

lemma opponent_neq [simp]: "opponent p \<noteq> p"
  by (cases p) simp_all

lemma current_player_make_move [simp]:
  "current_player (make_move b m) = opponent (current_player b)"
  by (simp add: make_move_def set_cell_def)

lemma opponent_opponent [simp]: "opponent (opponent p) = p"
  by (cases p) simp_all

lemma count_run_stop:
  assumes "\<not> ((di, dj) \<noteq> (0, 0) \<and> in_range b ni nj \<and> grid b ni nj = Some p)"
  shows "count_run b p ni nj di dj k = k"
  by (subst count_run.simps) (simp only: assms if_False)

lemma count_run_acc_aux:
  fixes c :: nat
  shows "\<forall>k. count_run b p ni nj di dj k = k + count_run b p ni nj di dj 0"
proof (induction b p ni nj di dj c rule: count_run.induct)
  case (1 b p ni nj di dj count)
  show ?case
  proof (cases "(di, dj) \<noteq> (0, 0) \<and> in_range b ni nj \<and> grid b ni nj = Some p")
    case True
    have step: "count_run b p ni nj di dj k = count_run b p (ni + di) (nj + dj) di dj (k + 1)" for k
      using True by (subst count_run.simps) simp
    have ih: "count_run b p (ni + di) (nj + dj) di dj k = k + count_run b p (ni + di) (nj + dj) di dj 0" for k
      using 1 True by blast
    show ?thesis
    proof
      fix k
      have "count_run b p ni nj di dj k = (k + 1) + count_run b p (ni + di) (nj + dj) di dj 0"
        using step [of k] ih [of "k + 1"] by (simp only:)
      moreover have "count_run b p ni nj di dj 0 = (0 + 1) + count_run b p (ni + di) (nj + dj) di dj 0"
        using step [of 0] ih [of "0 + 1"] by (simp only:)
      ultimately show "count_run b p ni nj di dj k = k + count_run b p ni nj di dj 0"
        by linarith
    qed
  next
    case False
    show ?thesis
    proof
      fix k
      have "count_run b p ni nj di dj k = k" "count_run b p ni nj di dj 0 = 0"
        using False by (rule count_run_stop)+
      then show "count_run b p ni nj di dj k = k + count_run b p ni nj di dj 0" by simp
    qed
  qed
qed

lemma count_run_acc: "count_run b p ni nj di dj k = k + count_run b p ni nj di dj 0"
  using count_run_acc_aux by blast

lemma count_run_step:
  assumes "(di, dj) \<noteq> (0, 0)" "in_range b ni nj" "grid b ni nj = Some p"
  shows "count_run b p ni nj di dj 0 = Suc (count_run b p (ni + di) (nj + dj) di dj 0)"
proof -
  have "count_run b p ni nj di dj 0 = count_run b p (ni + di) (nj + dj) di dj (Suc 0)"
    using assms by (subst count_run.simps) simp
  then show ?thesis
    using count_run_acc [of b p "ni + di" "nj + dj" di dj "Suc 0"] by linarith
qed

section \<open>The search tree: invariant and a worked run\<close>

lemma select_safe_iff:
  "select_safe n \<longleftrightarrow>
     (children n \<noteq> [] \<longrightarrow> 1 \<le> visits n) \<and> (\<forall>c \<in> set (children n). 1 \<le> visits c \<and> select_safe c)"
  by (cases n) simp

lemma update_sel [simp]:
  "visits (update n r) = visits n + 1" "wins (update n r) = wins n + r"
  "children (update n r) = children n" "untried_moves (update n r) = untried_moves n"
  "node_board (update n r) = node_board n" "node_move (update n r) = node_move n"
  by (cases n, simp)+


lemma select_child_ok:
  assumes "select_safe n" and "children n \<noteq> []"
  shows "\<exists>i. select_child n = Inr i \<and> i < length (children n)"
proof -
  from assms have v: "visits n \<noteq> 0" and c: "\<forall>c \<in> set (children n). 1 \<le> visits c"
    using select_safe_iff [of n] by auto
  from c have z: "\<not> list_ex (\<lambda>x. visits x = 0) (children n)"
    by (auto simp: list_ex_iff)
  have "select_child n = Inr (last (sort_key (\<lambda>i. ucb1 n (children n ! i)) [0..<length (children n)]))"
    unfolding select_child_def by (simp only: assms(2) v z if_False simp_thms)
  then show ?thesis
    using select_child_in_range by blast
qed

lemma iterate_safe:
  assumes "select_safe n"
  shows "\<exists>n' r. iterate n = Inr (n', r) \<and> select_safe n' \<and> visits n' = visits n + 1
            \<and> wins n' = wins n + r \<and> node_board n' = node_board n \<and> node_move n' = node_move n"
  using assms
proof (induction n rule: iterate.induct)
  case (1 b mv cs w v u)
  let ?n = "Node b mv cs w v u"
  show ?case
  proof (cases "u = [] \<and> cs \<noteq> []")
    case True
    then obtain i where i: "select_child ?n = Inr i" "i < length cs"
      using select_child_ok [OF "1.prems"] by auto
    from "1.prems" i(2) have "select_safe (cs ! i)"
      by simp
    from "1.IH" [OF True i(1) this] obtain c r where
      c: "iterate (cs ! i) = Inr (c, r)" "select_safe c" "visits c = visits (cs ! i) + 1"
      by blast
    have "\<forall>x \<in> set (cs[i := c]). 1 \<le> visits x \<and> select_safe x"
    proof
      fix x assume "x \<in> set (cs[i := c])"
      then have "x = c \<or> x \<in> set cs"
        using set_update_subset_insert by fastforce
      with c(2,3) "1.prems" show "1 \<le> visits x \<and> select_safe x"
        by auto
    qed
    then have "select_safe (update (Node b mv (cs[i := c]) w v u) r)"
      by simp
    with True i c show ?thesis
      by (subst iterate.simps) simp
  next
    case False
    show ?thesis
    proof (cases "u \<noteq> []")
      case True
      with False "1.prems" show ?thesis
        by (subst iterate.simps) (simp add: Let_def new_node_def)
    next
      case F2: False
      with False "1.prems" show ?thesis
        by (subst iterate.simps) (simp add: Let_def)
    qed
  qed
qed

lemma search_safe:
  assumes "select_safe n"
  shows "\<exists>r. search ticks n = Inr r \<and> select_safe r \<and> visits r = visits n + ticks
            \<and> node_board r = node_board n"
  using assms
proof (induction ticks arbitrary: n)
  case 0
  then show ?case by simp
next
  case (Suc ticks)
  from iterate_safe [OF Suc.prems] obtain n' r where
    n': "iterate n = Inr (n', r)" "select_safe n'" "visits n' = visits n + 1" "node_board n' = node_board n"
    by blast
  from Suc.IH [OF n'(2)] n' show ?case
    by auto
qed

lemma new_node_safe: "select_safe (new_node b mv)"
  by (simp add: new_node_def)




lemma iterate_at_node:
  "iterate (Node b mv [] w v []) = Inr (update (Node b mv [] w v []) (simulation_value b), simulation_value b)"
  by (subst iterate.simps) (simp only: simp_thms if_True if_False Let_def)



subsection \<open>Two iterations on the late position\<close>

lemma late_sorted: "get_sorted_moves late_board = [(0, 13), (0, 9), (0, 8), (14, 0), (0, 14)]"
  by code_simp

lemma late_no_forced:
  "find (\<lambda>move. is_winning_move late_board move (current_player late_board)
                \<or> is_winning_move late_board move (opponent (current_player late_board)))
     [(0, 13), (0, 9), (0, 8), (14, 0), (0, 14)] = None"
  by code_simp

lemma late_sim_13: "simulation_value (make_move (copy late_board) (0, 13)) = 0"
  by code_simp

lemma late_sim_9: "simulation_value (make_move (copy late_board) (0, 9)) = 0"
  by code_simp


lemma late_iterate1: "iterate (new_node late_board None) = Inr (late_tree1, 0)"
  by (simp add: new_node_def iterate.simps late_sorted late_sim_13 late_tree1_def late_child_def Let_def)

lemma late_iterate2: "iterate late_tree1 = Inr (late_tree2, 0)"
  by (simp add: new_node_def iterate.simps late_sim_9 late_tree1_def late_tree2_def late_child_def Let_def)


lemma late_search2: "search 2 (new_node late_board None) = Inr late_tree2"
  by (simp add: numeral_2_eq_2 late_iterate1 late_iterate2)
section \<open>C1: immediate wins and blocks\<close>





lemma bsize_set_cell [simp]: "bsize (set_cell b m v) = bsize b"
  by (simp add: set_cell_def)












section \<open>C2: the result on a board without empty cells\<close>

lemma search_no_moves:
  "\<exists>w' v'. search ticks (Node b mv [] w v []) = Inr (Node b mv [] w' v' [])"
proof (induction ticks arbitrary: w v)
  case 0
  show ?case by simp
next
  case (Suc ticks)
  from Suc [of "w + simulation_value b" "v + 1"] show ?case
    by (simp add: iterate_at_node)
qed

lemma get_sorted_moves_full: "get_valid_moves b = [] \<Longrightarrow> get_sorted_moves b = []"
  by (simp add: get_sorted_moves_def)

lemma ai_get_valid_moves_full:
  assumes "0 < bsize b" and "get_valid_moves b = []"
  shows "ai_get_valid_moves b = []"
proof -
  from assms(2) have "filter (\<lambda>m. grid b (fst m) (snd m) = None \<and> has_neighbor b (fst m) (snd m)) (all_cells b) = []"
    by (auto simp: get_valid_moves_def filter_empty_conv)
  with assms show ?thesis
    by (simp add: ai_get_valid_moves_def)
qed

text \<open>
  C2 at a board without empty cells.  \<^verbatim>\<open>GomokuAI.get_move\<close> returns \<^verbatim>\<open>None\<close> there, as the
  claim says.  \<^verbatim>\<open>MCTS.get_move\<close> builds a root without untried moves, no iteration adds a
  child, and \<^verbatim>\<open>sorted(root.children, ...)[-1]\<close> raises IndexError, for every time budget.
\<close>

theorem full_board_no_move:
  assumes "0 < bsize b" and "get_valid_moves b = []"
  shows "get_move max_depth b = None \<and> mcts_get_move self ticks b = Inl IndexError"
proof
  show "get_move max_depth b = None"
    using ai_get_valid_moves_full [OF assms] by (simp add: get_move_def)
  obtain w' v' where "search ticks (Node b None [] 0 0 []) = Inr (Node b None [] w' v' [])"
    using search_no_moves by blast
  then show "mcts_get_move self ticks b = Inl IndexError"
    using assms(2) by (simp add: mcts_get_move_def new_node_def get_sorted_moves_full)
qed

theorem full_board_no_move_witness:
  "0 < bsize full_board \<and> get_valid_moves full_board = [] \<and> check_win full_board = None
   \<and> get_move 4 full_board = None
   \<and> mcts_get_move \<lparr>time_limit = 5, max_moves = 1000\<rparr> 1000 full_board = Inl IndexError"
proof -
  have a: "0 < bsize full_board" by (simp add: full_board_def)
  have b: "get_valid_moves full_board = []" by code_simp
  have c: "check_win full_board = None" by code_simp
  show ?thesis
    using full_board_no_move [OF a b] a b c by simp
qed
section \<open>C3: the perspective of the leaf evaluation\<close>








section \<open>C4: the value that backpropagation adds\<close>






section \<open>C5: which ends of a pattern count as blocked\<close>

text \<open>
  The run of the player's stones that a walk starting at \<open>(ni, nj)\<close> with step \<open>(di, dj)\<close>
  passes has length \<open>count_run b p ni nj di dj 0\<close>.  The walk stops at an opponent stone when
  the first cell after that run is on the board and holds an opponent stone, or is empty
  and the cell after it is on the board and holds an opponent stone.  It stops at the board
  edge when the first cell after the run is off the board, or is empty and the cell after it
  is off the board.
\<close>

definition stops_at_opponent :: "board \<Rightarrow> player \<Rightarrow> int \<Rightarrow> int \<Rightarrow> int \<Rightarrow> int \<Rightarrow> bool" where
  "stops_at_opponent b p ni nj di dj =
     (let r = int (count_run b p ni nj di dj 0); ei = ni + r * di; ej = nj + r * dj in
      in_range b ei ej \<and>
      (grid b ei ej = Some (opponent p) \<or>
       grid b ei ej = None \<and> in_range b (ei + di) (ej + dj) \<and> grid b (ei + di) (ej + dj) = Some (opponent p)))"

definition stops_at_edge :: "board \<Rightarrow> player \<Rightarrow> int \<Rightarrow> int \<Rightarrow> int \<Rightarrow> int \<Rightarrow> bool" where
  "stops_at_edge b p ni nj di dj =
     (let r = int (count_run b p ni nj di dj 0); ei = ni + r * di; ej = nj + r * dj in
      \<not> in_range b ei ej \<or> grid b ei ej = None \<and> \<not> in_range b (ei + di) (ej + dj))"


text \<open>The cell reached after the run is not a stone of the player inside the board.\<close>

lemma count_run_end:
  fixes c :: nat
  assumes "(di, dj) \<noteq> (0, 0)"
  shows "\<not> (in_range b (ni + int (count_run b p ni nj di dj 0) * di) (nj + int (count_run b p ni nj di dj 0) * dj)
          \<and> grid b (ni + int (count_run b p ni nj di dj 0) * di) (nj + int (count_run b p ni nj di dj 0) * dj) = Some p)"
  using assms
proof (induction b p ni nj di dj c rule: count_run.induct)
  case (1 b p ni nj di dj count)
  show ?case
  proof (cases "in_range b ni nj \<and> grid b ni nj = Some p")
    case True
    define r where "r = count_run b p (ni + di) (nj + dj) di dj 0"
    have step: "count_run b p ni nj di dj 0 = Suc r"
      unfolding r_def using True 1(2) by (intro count_run_step) auto
    have pos: "ni + int (Suc r) * di = ni + di + int r * di" "nj + int (Suc r) * dj = nj + dj + int r * dj"
      by (simp_all add: algebra_simps)
    have "\<not> (in_range b (ni + di + int r * di) (nj + dj + int r * dj)
          \<and> grid b (ni + di + int r * di) (nj + dj + int r * dj) = Some p)"
      unfolding r_def using 1 True by blast
    then show ?thesis
      unfolding step pos .
  next
    case False
    then have "count_run b p ni nj di dj 0 = 0" by (intro count_run_stop) simp
    with False show ?thesis by simp
  qed
qed

lemma walk_run:
  fixes k :: nat
  shows "walk b p ni nj di dj (c, 0, bl) =
   walk b p (ni + int (count_run b p ni nj di dj 0) * di) (nj + int (count_run b p ni nj di dj 0) * dj) di dj
     (c + count_run b p ni nj di dj 0, 0, bl)"
proof (induction b p ni nj di dj k arbitrary: c rule: count_run.induct)
  case (1 b p ni nj di dj count)
  show ?case
  proof (cases "(di, dj) \<noteq> (0, 0) \<and> in_range b ni nj \<and> grid b ni nj = Some p")
    case True
    define r where "r = count_run b p (ni + di) (nj + dj) di dj 0"
    have step: "count_run b p ni nj di dj 0 = Suc r"
      unfolding r_def using True by (intro count_run_step) auto
    have pos: "ni + int (Suc r) * di = ni + di + int r * di" "nj + int (Suc r) * dj = nj + dj + int r * dj"
      "c + Suc r = c + 1 + r"
      by (simp_all add: algebra_simps)
    have "walk b p ni nj di dj (c, 0, bl) = walk b p (ni + di) (nj + dj) di dj (c + 1, 0, bl)"
      using True by (subst walk.simps) simp
    also have "\<dots> = walk b p (ni + di + int r * di) (nj + dj + int r * dj) di dj (c + 1 + r, 0, bl)"
      unfolding r_def using 1 [OF True, of "c + 1"] .
    finally show ?thesis
      unfolding step pos .
  next
    case False
    then have "count_run b p ni nj di dj 0 = 0" by (intro count_run_stop) simp
    then show ?thesis by simp
  qed
qed

lemma walk_after_gap:
  assumes "(di, dj) \<noteq> (0, 0)"
  shows "snd (snd (walk b p ni nj di dj (c, Suc 0, bl))) =
           bl + (if in_range b ni nj \<and> grid b ni nj = Some (opponent p) then 1 else 0)"
  using assms by (subst walk.simps) (auto dest: other_player)

lemma walk_end:
  assumes "(di, dj) \<noteq> (0, 0)" and "\<not> (in_range b ei ej \<and> grid b ei ej = Some p)"
  shows "snd (snd (walk b p ei ej di dj (c, 0, bl))) =
           bl + (if in_range b ei ej \<and>
                    (grid b ei ej = Some (opponent p) \<or>
                     grid b ei ej = None \<and> in_range b (ei + di) (ej + dj)
                       \<and> grid b (ei + di) (ej + dj) = Some (opponent p))
                 then 1 else 0)"
proof (cases "in_range b ei ej")
  case False
  then show ?thesis by (subst walk.simps) simp
next
  case True
  show ?thesis
  proof (cases "grid b ei ej = None")
    case None: True
    have "walk b p ei ej di dj (c, 0, bl) = walk b p (ei + di) (ej + dj) di dj (c, Suc 0, bl)"
      using assms(1) \<open>in_range b ei ej\<close> None by (subst walk.simps) simp
    then show ?thesis
      using walk_after_gap [OF assms(1)] \<open>in_range b ei ej\<close> None by simp
  next
    case False
    with assms(2) True have opp: "grid b ei ej = Some (opponent p)"
      by (auto dest: other_player)
    show ?thesis
      using assms(1) True opp by (subst walk.simps) simp
  qed
qed

lemma walk_blocked:
  assumes "(di, dj) \<noteq> (0, 0)"
  shows "snd (snd (walk b p ni nj di dj (c, 0, bl))) =
           bl + (if stops_at_opponent b p ni nj di dj then 1 else 0)"
  unfolding stops_at_opponent_def Let_def
  by (subst walk_run) (rule walk_end [OF assms count_run_end [OF assms]])

text \<open>
  C5 (amended).  For every board, anchor cell, non-zero direction and player, the blocked
  count of \<^verbatim>\<open>_get_pattern\<close> is the number of ends whose walk stops at an opponent stone:
  an end is marked blocked exactly when its walk stops at an opponent stone.  A walk that
  runs off the board leaves the count as it is, so a run is classified open (blocked count
  0) exactly when neither walk stops at an opponent stone.  \<^verbatim>\<open>Node._evaluate_line\<close> runs the
  same two walks.
\<close>

theorem get_pattern_blocked:
  assumes "(di, dj) \<noteq> (0, 0)"
  shows "fst (snd (get_pattern b i j di dj p)) =
           (if stops_at_opponent b p (i - di) (j - dj) (- di) (- dj) then 1 else 0)
         + (if stops_at_opponent b p (i + di) (j + dj) di dj then 1 else 0)"
proof -
  obtain c1 sb bl1 where w1: "walk b p (i - di) (j - dj) (- di) (- dj) (1, 0, 0) = (c1, sb, bl1)"
    by (metis prod_cases3)
  obtain c2 sa bl2 where w2: "walk b p (i + di) (j + dj) di dj (c1, 0, bl1) = (c2, sa, bl2)"
    by (metis prod_cases3)
  from assms have neg: "(- di, - dj) \<noteq> (0, 0)" by simp
  have "bl1 = (if stops_at_opponent b p (i - di) (j - dj) (- di) (- dj) then 1 else 0)"
    using walk_blocked [OF neg, of b p "i - di" "j - dj" 1 0] w1 by simp
  moreover have "bl2 = bl1 + (if stops_at_opponent b p (i + di) (j + dj) di dj then 1 else 0)"
    using walk_blocked [OF assms, of b p "i + di" "j + dj" c1 bl1] w2 by simp
  moreover have "get_pattern b i j di dj p = (c2, bl2, sb + sa)"
    unfolding get_pattern_def w1 by (simp add: w2)
  ultimately show ?thesis
    by simp
qed

theorem get_pattern_blocked_witness:
  "((1::int), (0::int)) \<noteq> (0, 0) \<and> fst (snd (get_pattern c5_board 0 0 1 0 Black)) = 1
   \<and> \<not> stops_at_opponent c5_board Black (-1) 0 (-1) 0 \<and> stops_at_opponent c5_board Black 1 0 1 0"
proof -
  have a: "\<not> stops_at_opponent c5_board Black (-1) 0 (-1) 0" by code_simp
  have b: "stops_at_opponent c5_board Black 1 0 1 0" by code_simp
  show ?thesis
    using get_pattern_blocked [of 1 0 c5_board 0 0 Black] a b by simp
qed

text \<open>
  C5 as stated fails at the board edge.  On the board below the anchor \<open>(0, 0)\<close> holds a
  Black stone; the backward walk along \<open>(0, 1)\<close> starts at \<open>(0, -1)\<close>, off the board, so it
  stops at the edge, yet it does not mark the end blocked, and the pattern of the anchor has
  blocked count 0.
\<close>

theorem edge_not_blocked_counterexample:
  "\<not> (snd (snd (walk c5_board Black 0 (-1) 0 (-1) (1, 0, 0))) = 1
        \<longleftrightarrow> stops_at_opponent c5_board Black 0 (-1) 0 (-1) \<or> stops_at_edge c5_board Black 0 (-1) 0 (-1))
   \<and> stops_at_edge c5_board Black 0 (-1) 0 (-1)
   \<and> fst (snd (get_pattern c5_board 0 0 0 1 Black)) = 0"
  by code_simp

section \<open>C6: what bounds the search loop\<close>

text \<open>
  C6 (amended).  The search loop runs one simulation for every successful test of the clock
  and ends when that test fails; no iteration raises.  \<^verbatim>\<open>max_moves\<close> is stored by the
  constructor and never read: the number of completed simulations (the visit count of the
  root) equals the number of successful clock tests, and the result of \<^verbatim>\<open>get_move\<close> is the
  same for every value of \<^verbatim>\<open>max_moves\<close>.
\<close>

theorem simulations_follow_clock:
  "(\<exists>r. search ticks (new_node b None) = Inr r \<and> visits r = ticks)
   \<and> mcts_get_move (self\<lparr>max_moves := k\<rparr>) ticks b = mcts_get_move self ticks b"
proof
  show "\<exists>r. search ticks (new_node b None) = Inr r \<and> visits r = ticks"
    using search_safe [OF new_node_safe, of ticks b None] by (auto simp: new_node_def)
  show "mcts_get_move (self\<lparr>max_moves := k\<rparr>) ticks b = mcts_get_move self ticks b"
    by (simp add: mcts_get_move_def)
qed


text \<open>
  C6 as stated fails: with \<^verbatim>\<open>max_moves = 1\<close> and a clock that lets the loop test succeed
  twice, \<^verbatim>\<open>get_move\<close> on the late position completes two simulations and returns the move of
  the second one.
\<close>

theorem max_moves_exceeded_counterexample:
  "max_moves late_cfg = 1
   \<and> find (\<lambda>move. is_winning_move late_board move (current_player late_board)
                \<or> is_winning_move late_board move (opponent (current_player late_board)))
        (untried_moves (new_node late_board None)) = None
   \<and> search 2 (new_node late_board None) = Inr late_tree2
   \<and> int (visits late_tree2) > max_moves late_cfg
   \<and> mcts_get_move late_cfg 2 late_board = Inr (Some (0, 9))"
proof -
  have "mcts_get_move late_cfg 2 late_board = Inr (Some (0, 9))"
    using late_no_forced
    by (simp add: mcts_get_move_def new_node_def late_sorted late_search2 [unfolded new_node_def late_sorted]
          late_tree2_def late_child_def)
  then show ?thesis
    using late_no_forced late_search2
    by (simp add: late_cfg_def new_node_def late_sorted late_tree2_def)
qed
section \<open>C7: the final choice\<close>








section \<open>C9: the cutoff does not change the value or the move\<close>

lemma NegInf_least [simp]: "NegInf \<le> (x :: score)"
  by simp

lemma PosInf_greatest [simp]: "(x :: score) \<le> PosInf"
  by (cases x) simp_all

lemma max_NegInf [simp]: "max NegInf (x :: score) = x" "max x NegInf = x"
  by (simp_all add: max_def antisym)

lemma min_PosInf [simp]: "min PosInf (x :: score) = x" "min x PosInf = x"
  by (simp_all add: min_def antisym)

text \<open>A search value \<open>ab\<close> for the window \<open>(a, b)\<close> against the value \<open>v\<close> of the full
  recursion: exact inside the window, an upper bound of \<open>v\<close> at or below \<open>a\<close>, a lower bound
  at or above \<open>b\<close>.\<close>

definition window_ok :: "score \<Rightarrow> score \<Rightarrow> score \<Rightarrow> score \<Rightarrow> bool" where
  "window_ok a b v ab \<longleftrightarrow> (ab \<le> a \<longrightarrow> v \<le> ab) \<and> (a < ab \<and> ab < b \<longrightarrow> ab = v) \<and> (b \<le> ab \<longrightarrow> ab \<le> v)"

text \<open>The value of a loop without cutoff when the children do not depend on the bound.\<close>

fun maxs :: "(move \<Rightarrow> score) \<Rightarrow> move list \<Rightarrow> score \<Rightarrow> score" where
  "maxs v [] t = t"
| "maxs v (m # ms) t = maxs v ms (max t (v m))"

fun mins :: "(move \<Rightarrow> score) \<Rightarrow> move list \<Rightarrow> score \<Rightarrow> score" where
  "mins v [] t = t"
| "mins v (m # ms) t = mins v ms (min t (v m))"

lemma maxs_ge: "t \<le> maxs v ms t"
  by (induction ms arbitrary: t) (auto intro: order_trans [OF max.cobounded1])

lemma mins_le: "mins v ms t \<le> t"
  by (induction ms arbitrary: t) (auto intro: order_trans [OF _ min.cobounded1])

lemma max_loop_no_cutoff_maxs:
  "(\<And>m a. m \<in> set ms \<Longrightarrow> child m a = v m) \<Longrightarrow> max_loop_no_cutoff child beta ms t alpha = maxs v ms t"
  by (induction ms arbitrary: t alpha) (simp_all add: Let_def)

lemma min_loop_no_cutoff_mins:
  "(\<And>m a. m \<in> set ms \<Longrightarrow> child m a = v m) \<Longrightarrow> min_loop_no_cutoff child alpha ms t beta = mins v ms t"
  by (induction ms arbitrary: t beta) (simp_all add: Let_def)

lemma max_loop_window:
  assumes "\<And>m a. m \<in> set ms \<Longrightarrow> a < beta \<Longrightarrow> window_ok a beta (v m) (child m a)"
    and "a = max alpha0 me" and "a < beta" and "window_ok alpha0 beta tp me"
  shows "window_ok alpha0 beta (maxs v ms tp) (max_loop child beta ms me a)"
  using assms
proof (induction ms arbitrary: me a tp)
  case Nil
  then show ?case by simp
next
  case (Cons m ms)
  define ev where "ev = child m a"
  have ev: "window_ok a beta (v m) ev"
    unfolding ev_def using Cons.prems(1) [of m a] Cons.prems(3) by simp
  show ?case
  proof (cases "beta \<le> max a ev")
    case True
    have "v m \<le> maxs v ms (max tp (v m))"
      by (rule order_trans [OF max.cobounded2 maxs_ge])
    with True ev Cons.prems(2,3,4) have "window_ok alpha0 beta (maxs v ms (max tp (v m))) (max me ev)"
      unfolding window_ok_def by (auto simp: max_def split: if_splits)
    with True show ?thesis
      by (simp add: Let_def ev_def)
  next
    case False
    have "window_ok alpha0 beta (maxs v ms (max tp (v m))) (max_loop child beta ms (max me ev) (max a ev))"
    proof (rule Cons.IH)
      show "window_ok a' beta (v m') (child m' a')" if "m' \<in> set ms" "a' < beta" for m' a'
        using Cons.prems(1) that by simp
      show "max a ev = max alpha0 (max me ev)"
        using Cons.prems(2) by (simp add: max.assoc)
      show "max a ev < beta"
        using False by (simp add: not_le)
      show "window_ok alpha0 beta (max tp (v m)) (max me ev)"
        using False ev Cons.prems(2,3,4) unfolding window_ok_def
        by (auto simp: max_def split: if_splits)
    qed
    with False show ?thesis
      by (simp add: Let_def ev_def)
  qed
qed


lemma min_loop_window:
  assumes "\<And>m b. m \<in> set ms \<Longrightarrow> alpha < b \<Longrightarrow> window_ok alpha b (v m) (child m b)"
    and "b = min beta0 me" and "alpha < b" and "window_ok alpha beta0 tp me"
  shows "window_ok alpha beta0 (mins v ms tp) (min_loop child alpha ms me b)"
  using assms
proof (induction ms arbitrary: me b tp)
  case Nil
  then show ?case by simp
next
  case (Cons m ms)
  define ev where "ev = child m b"
  have ev: "window_ok alpha b (v m) ev"
    unfolding ev_def using Cons.prems(1) [of m b] Cons.prems(3) by simp
  show ?case
  proof (cases "min b ev \<le> alpha")
    case True
    have "mins v ms (min tp (v m)) \<le> v m"
      by (rule order_trans [OF mins_le min.cobounded2])
    with True ev Cons.prems(2,3,4) have "window_ok alpha beta0 (mins v ms (min tp (v m))) (min me ev)"
      unfolding window_ok_def by (auto simp: min_def split: if_splits)
    with True show ?thesis
      by (simp add: Let_def ev_def)
  next
    case False
    have "window_ok alpha beta0 (mins v ms (min tp (v m))) (min_loop child alpha ms (min me ev) (min b ev))"
    proof (rule Cons.IH)
      show "window_ok alpha b' (v m') (child m' b')" if "m' \<in> set ms" "alpha < b'" for m' b'
        using Cons.prems(1) that by simp
      show "min b ev = min beta0 (min me ev)"
        using Cons.prems(2) by (simp add: min.assoc)
      show "alpha < min b ev"
        using False by (simp add: not_le)
      show "window_ok alpha beta0 (min tp (v m)) (min me ev)"
        using False ev Cons.prems(2,3,4) unfolding window_ok_def
        by (auto simp: min_def split: if_splits)
    qed
    with False show ?thesis
      by (simp add: Let_def ev_def)
  qed
qed

text \<open>Without the cutoff the bounds are dead: the value does not depend on them.\<close>

lemma minimax_no_cutoff_bounds_aux:
  fixes a0 b0 :: score
  shows "\<forall>alpha beta. minimax_no_cutoff b depth mx alpha beta = minimax_no_cutoff b depth mx NegInf PosInf"
proof (induction b depth mx a0 b0 rule: minimax_no_cutoff.induct)
  case (1 b depth mx a0 b0)
  show ?case
  proof (cases "depth = 0 \<or> is_game_over b")
    case True
    then show ?thesis by (simp add: minimax_no_cutoff.simps)
  next
    case leaf: False
    show ?thesis
    proof (cases mx)
      case True
      have ch: "minimax_no_cutoff (make_move (copy b) m) (depth - 1) False a beta'
             = minimax_no_cutoff (make_move (copy b) m) (depth - 1) False NegInf PosInf"
        if "m \<in> set (ai_get_valid_moves b)" for m a beta'
        using 1(1) [OF leaf True that] by blast
      have "minimax_no_cutoff b depth mx alpha beta
          = maxs (\<lambda>m. minimax_no_cutoff (make_move (copy b) m) (depth - 1) False NegInf PosInf)
              (ai_get_valid_moves b) NegInf" for alpha beta
        using leaf True
        by (subst minimax_no_cutoff.simps) (simp add: max_loop_no_cutoff_maxs [OF ch])
      then show ?thesis by simp
    next
      case False
      have ch: "minimax_no_cutoff (make_move (copy b) m) (depth - 1) True alpha' bb
             = minimax_no_cutoff (make_move (copy b) m) (depth - 1) True NegInf PosInf"
        if "m \<in> set (ai_get_valid_moves b)" for m alpha' bb
        using 1(2) [OF leaf False that] by blast
      have "minimax_no_cutoff b depth mx alpha beta
          = mins (\<lambda>m. minimax_no_cutoff (make_move (copy b) m) (depth - 1) True NegInf PosInf)
              (ai_get_valid_moves b) PosInf" for alpha beta
        using leaf False
        by (subst minimax_no_cutoff.simps) (simp add: min_loop_no_cutoff_mins [OF ch])
      then show ?thesis by simp
    qed
  qed
qed

lemma minimax_no_cutoff_bounds:
  "minimax_no_cutoff b depth mx alpha beta = minimax_no_cutoff b depth mx NegInf PosInf"
  using minimax_no_cutoff_bounds_aux by blast

lemma minimax_no_cutoff_max:
  assumes "\<not> (depth = 0 \<or> is_game_over b)"
  shows "minimax_no_cutoff b depth True alpha beta
          = maxs (\<lambda>m. minimax_no_cutoff (make_move (copy b) m) (depth - 1) False NegInf PosInf)
              (ai_get_valid_moves b) NegInf"
  using assms
  by (subst minimax_no_cutoff.simps)
     (simp add: max_loop_no_cutoff_maxs [OF minimax_no_cutoff_bounds])

lemma minimax_no_cutoff_min:
  assumes "\<not> (depth = 0 \<or> is_game_over b)"
  shows "minimax_no_cutoff b depth False alpha beta
          = mins (\<lambda>m. minimax_no_cutoff (make_move (copy b) m) (depth - 1) True NegInf PosInf)
              (ai_get_valid_moves b) PosInf"
  using assms
  by (subst minimax_no_cutoff.simps)
     (simp add: min_loop_no_cutoff_mins [OF minimax_no_cutoff_bounds])

lemma window_ok_refl: "window_ok a b v v"
  by (simp add: window_ok_def)

lemma minimax_window_aux:
  fixes a0 b0 :: score
  shows "\<forall>alpha beta. alpha < beta \<longrightarrow>
     window_ok alpha beta (minimax_no_cutoff b depth mx NegInf PosInf) (minimax b depth mx alpha beta)"
proof (induction b depth mx a0 b0 rule: minimax.induct)
  case (1 b depth mx a0 b0)
  show ?case
  proof (cases "depth = 0 \<or> is_game_over b")
    case True
    then show ?thesis
      by (simp add: minimax.simps minimax_no_cutoff.simps window_ok_refl)
  next
    case leaf: False
    show ?thesis
    proof (intro allI impI)
      fix alpha beta :: score
      assume lt: "alpha < beta"
      show "window_ok alpha beta (minimax_no_cutoff b depth mx NegInf PosInf) (minimax b depth mx alpha beta)"
      proof (cases mx)
        case True
        have "window_ok alpha beta
               (maxs (\<lambda>m. minimax_no_cutoff (make_move (copy b) m) (depth - 1) False NegInf PosInf)
                  (ai_get_valid_moves b) NegInf)
               (max_loop (\<lambda>move alpha. minimax (make_move (copy b) move) (depth - 1) False alpha beta)
                  beta (ai_get_valid_moves b) NegInf alpha)"
        proof (rule max_loop_window)
          show "window_ok a beta (minimax_no_cutoff (make_move (copy b) m) (depth - 1) False NegInf PosInf)
                  (minimax (make_move (copy b) m) (depth - 1) False a beta)"
            if "m \<in> set (ai_get_valid_moves b)" "a < beta" for m a
            using 1(1) [OF leaf True that(1)] that(2) by blast
          show "alpha = max alpha NegInf" by simp
          show "alpha < beta" by (rule lt)
          show "window_ok alpha beta NegInf NegInf" by (rule window_ok_refl)
        qed
        then show ?thesis
          using leaf True by (simp add: minimax_no_cutoff_max) (subst minimax.simps, simp)
      next
        case False
        have "window_ok alpha beta
               (mins (\<lambda>m. minimax_no_cutoff (make_move (copy b) m) (depth - 1) True NegInf PosInf)
                  (ai_get_valid_moves b) PosInf)
               (min_loop (\<lambda>move beta. minimax (make_move (copy b) move) (depth - 1) True alpha beta)
                  alpha (ai_get_valid_moves b) PosInf beta)"
        proof (rule min_loop_window)
          show "window_ok alpha bb (minimax_no_cutoff (make_move (copy b) m) (depth - 1) True NegInf PosInf)
                  (minimax (make_move (copy b) m) (depth - 1) True alpha bb)"
            if "m \<in> set (ai_get_valid_moves b)" "alpha < bb" for m bb
            using 1(2) [OF leaf False that(1)] that(2) by blast
          show "beta = min beta PosInf" by simp
          show "alpha < beta" by (rule lt)
          show "window_ok alpha beta PosInf PosInf" by (rule window_ok_refl)
        qed
        then show ?thesis
          using leaf False by (simp add: minimax_no_cutoff_min) (subst minimax.simps, simp)
      qed
    qed
  qed
qed

lemma minimax_window:
  "alpha < beta \<Longrightarrow>
     window_ok alpha beta (minimax_no_cutoff b depth mx NegInf PosInf) (minimax b depth mx alpha beta)"
  using minimax_window_aux by blast


lemma not_PosInf_less [simp]: "\<not> PosInf < (x :: score)"
  by (simp add: not_less)

lemma window_full_exact:
  assumes "window_ok NegInf PosInf v ab"
  shows "ab = v"
proof (cases ab)
  case NegInf
  with assms have "v \<le> NegInf" by (simp add: window_ok_def)
  with NegInf show ?thesis by (cases v) simp_all
next
  case (Fin r)
  with assms show ?thesis by (simp add: window_ok_def less_score_def)
next
  case PosInf
  with assms have "PosInf \<le> v" by (simp add: window_ok_def)
  with PosInf show ?thesis by (cases v) simp_all
qed

lemma root_loop_same:
  assumes "\<And>m a. m \<in> set ms \<Longrightarrow> a < PosInf \<Longrightarrow> window_ok a PosInf (v m) (child m a)"
    and "\<And>m a. m \<in> set ms \<Longrightarrow> child' m a = v m"
  shows "root_loop child ms bs bs bm = root_loop child' ms bs bs bm"
  using assms
proof (induction ms arbitrary: bs bm)
  case Nil
  show ?case by simp
next
  case (Cons m ms)
  have c': "child' m bs = v m"
    using Cons.prems(2) by simp
  have same: "(bs < child m bs) = (bs < v m) \<and> (bs < v m \<longrightarrow> child m bs = v m)"
  proof (cases "bs < PosInf")
    case True
    then have "window_ok bs PosInf (v m) (child m bs)"
      using Cons.prems(1) by simp
    then show ?thesis
      unfolding window_ok_def using PosInf_greatest [of "v m"] PosInf_greatest [of "child m bs"]
      by (metis antisym leD leI order_trans)
  next
    case False
    then have "bs = PosInf" by (cases bs) (simp_all add: less_score_def)
    then show ?thesis
      by simp
  qed
  have ih: "root_loop child ms x x y = root_loop child' ms x x y" for x y
    using Cons.IH [of x y] Cons.prems by simp
  show ?case
  proof (cases "bs < v m")
    case True
    with same have "child m bs = v m" "bs < child m bs" by simp_all
    with True c' show ?thesis
      by (simp add: Let_def max_absorb2 less_imp_le ih)
  next
    case False
    with same have "\<not> bs < child m bs" by simp
    with False c' show ?thesis
      by (simp add: Let_def ih)
  qed
qed

text \<open>
  C9.  For every board, depth and node kind, the recursion \<^verbatim>\<open>_minimax\<close> started with
  \<open>alpha = -inf\<close> and \<open>beta = +inf\<close> returns the value of the same recursion with the
  \<^verbatim>\<open>beta <= alpha\<close> cutoff removed, over the same candidate generator; and \<^verbatim>\<open>get_move\<close>
  returns the same move with and without the cutoff, for every configured depth.
\<close>

theorem alpha_beta_equals_no_cutoff:
  "minimax b depth is_maximizing NegInf PosInf = minimax_no_cutoff b depth is_maximizing NegInf PosInf
   \<and> get_move max_depth b = get_move_no_cutoff max_depth b"
proof
  have "NegInf < PosInf" by (simp add: less_score_def)
  then show "minimax b depth is_maximizing NegInf PosInf = minimax_no_cutoff b depth is_maximizing NegInf PosInf"
    by (intro window_full_exact minimax_window)
next
  have "root_loop (\<lambda>move alpha. minimax (make_move (copy b) move) (max_depth - 1) False alpha PosInf)
          ms NegInf NegInf None
      = root_loop (\<lambda>move alpha. minimax_no_cutoff (make_move (copy b) move) (max_depth - 1) False alpha PosInf)
          ms NegInf NegInf None" for ms
    by (rule root_loop_same [where v = "\<lambda>m. minimax_no_cutoff (make_move (copy b) m) (max_depth - 1) False NegInf PosInf"])
       (rule minimax_window, assumption, rule minimax_no_cutoff_bounds)
  then show "get_move max_depth b = get_move_no_cutoff max_depth b"
    unfolding get_move_def get_move_no_cutoff_def by (simp only:)
qed
section \<open>C10: the preconditions of the UCB1 formula\<close>

text \<open>
  C10.  Throughout a run of \<^verbatim>\<open>MCTS.get_move\<close> no iteration raises, and after any number of
  iterations every node of the tree that has children has a visit count of at least 1
  and only children with a visit count of at least 1.  \<^verbatim>\<open>select_child\<close> is only called on
  nodes of that tree that have children, so it never divides by zero and the argument of
  its logarithm is at least 1.
\<close>

theorem select_child_preconditions:
  "\<exists>r. search ticks (new_node b None) = Inr r \<and> select_safe r"
  using search_safe [OF new_node_safe] by blast

theorem select_child_preconditions_witness:
  "search 2 (new_node late_board None) = Inr late_tree2 \<and> select_safe late_tree2
   \<and> (\<exists>r. search 2 (new_node late_board None) = Inr r \<and> select_safe r)"
  using select_child_preconditions [of 2 late_board] late_search2 by simp


end
